theory Spec2Isabelle
  imports Complex_Main "HOL-Library.Multiset"
begin

section \<open>Characters and the regular expressions of the notebooks\<close>

text \<open>
  Python's \<open>str\<close> is a sequence of code points. A \<^typ>\<open>char\<close> stands for one code
  point below 256, so a \<^typ>\<open>string\<close> is a Python \<open>str\<close> over Latin-1. The four
  classifications are those of Python 3 on these code points: \<open>\w\<close> is
  \<open>str.isalnum\<close> or the underscore, \<open>\s\<close> is \<open>str.isspace\<close>, \<open>\d\<close> is the
  decimal digits, and \<open>str.lower\<close> moves \<open>A-Z\<close> and the accented capitals down by 32.
\<close>

definition code :: "char \<Rightarrow> nat" where
  "code c = of_char c"

definition is_upper :: "char \<Rightarrow> bool" where
  "is_upper c = ((65 \<le> code c \<and> code c \<le> 90) \<or> (192 \<le> code c \<and> code c \<le> 222 \<and> code c \<noteq> 215))"

definition is_alpha :: "char \<Rightarrow> bool" where
  "is_alpha c = ((65 \<le> code c \<and> code c \<le> 90) \<or> (97 \<le> code c \<and> code c \<le> 122)
     \<or> code c = 170 \<or> code c = 181 \<or> code c = 186
     \<or> (192 \<le> code c \<and> code c \<noteq> 215 \<and> code c \<noteq> 247))"

definition is_digit :: "char \<Rightarrow> bool" where
  "is_digit c = (48 \<le> code c \<and> code c \<le> 57)"

definition is_numeric :: "char \<Rightarrow> bool" where
  "is_numeric c = (is_digit c \<or> code c = 178 \<or> code c = 179 \<or> code c = 185
     \<or> (188 \<le> code c \<and> code c \<le> 190))"

definition is_word :: "char \<Rightarrow> bool" where
  "is_word c = (is_alpha c \<or> is_numeric c \<or> code c = 95)"

definition is_space :: "char \<Rightarrow> bool" where
  "is_space c = ((9 \<le> code c \<and> code c \<le> 13) \<or> (28 \<le> code c \<and> code c \<le> 32)
     \<or> code c = 133 \<or> code c = 160)"

definition lower :: "char \<Rightarrow> char" where
  "lower c = (if is_upper c then char_of (code c + 32) else c)"

text \<open>
  Every pattern of the notebooks has one of two shapes: \<open>\bLIT\b\<close> with a literal
  (\<open>re.escape(abbr)\<close>, \<open>ohai\<close>, \<open>india pale ales\<close>), or \<open>\b(LIT|...|LIT)\b\<close>, and every
  one is compiled with \<open>re.IGNORECASE\<close>. The matcher below runs such a pattern at one
  position of the text: \<open>pw\<close> says whether the character before the position is a word
  character (\<open>False\<close> at the start of the text), \<open>first_is_word\<close> does the same for the
  character at the position (\<open>False\<close> at the end), and \<open>\b\<close> holds where the two differ.
  A literal character matches a text character when both have the same lower case.
\<close>

fun first_is_word :: "string \<Rightarrow> bool" where
  "first_is_word [] = False"
| "first_is_word (c # cs) = is_word c"

fun lit_then_wb :: "string \<Rightarrow> bool \<Rightarrow> string \<Rightarrow> bool" where
  "lit_then_wb [] pw s = (pw \<noteq> first_is_word s)"
| "lit_then_wb (k # ks) pw [] = False"
| "lit_then_wb (k # ks) pw (c # cs) = (lower c = lower k \<and> lit_then_wb ks (is_word c) cs)"

definition match_at :: "string list \<Rightarrow> bool \<Rightarrow> string \<Rightarrow> bool" where
  "match_at alts pw s = (pw \<noteq> first_is_word s \<and> (\<exists>lit \<in> set alts. lit_then_wb lit pw s))"

text \<open>\<open>re.search(pattern, text, flags=re.I)\<close> as a truth value: some position matches.\<close>

fun search_from :: "string list \<Rightarrow> bool \<Rightarrow> string \<Rightarrow> bool" where
  "search_from alts pw [] = match_at alts pw []"
| "search_from alts pw (c # cs) = (match_at alts pw (c # cs) \<or> search_from alts (is_word c) cs)"

definition re_search :: "string list \<Rightarrow> string \<Rightarrow> bool" where
  "re_search alts s = search_from alts False s"

text \<open>
  \<open>re.sub\<close> and the number of matches \<open>re.findall\<close> returns, for \<open>\bLIT\b\<close> with a
  non-empty literal: the leftmost match is taken, and the scan resumes behind it.
\<close>

function sub_from :: "string \<Rightarrow> string \<Rightarrow> bool \<Rightarrow> string \<Rightarrow> string" where
  "sub_from lit repl pw [] = []"
| "sub_from lit repl pw (c # cs) =
     (if lit \<noteq> [] \<and> match_at [lit] pw (c # cs)
      then repl @ sub_from lit repl (is_word (last (take (length lit) (c # cs))))
                    (drop (length lit) (c # cs))
      else c # sub_from lit repl (is_word c) cs)"
  by pat_completeness auto
termination
  by (relation "measure (\<lambda>(lit, repl, pw, s). length s)") auto

function count_from :: "string \<Rightarrow> bool \<Rightarrow> string \<Rightarrow> nat" where
  "count_from lit pw [] = 0"
| "count_from lit pw (c # cs) =
     (if lit \<noteq> [] \<and> match_at [lit] pw (c # cs)
      then Suc (count_from lit (is_word (last (take (length lit) (c # cs))))
                  (drop (length lit) (c # cs)))
      else count_from lit (is_word c) cs)"
  by pat_completeness auto
termination
  by (relation "measure (\<lambda>(lit, pw, s). length s)") auto

definition re_sub :: "string \<Rightarrow> string \<Rightarrow> string \<Rightarrow> string" where
  "re_sub lit repl s = sub_from lit repl False s"

definition re_count :: "string \<Rightarrow> string \<Rightarrow> nat" where
  "re_count lit s = count_from lit False s"

section \<open>Notebook 1: cleaning\<close>

text \<open>
  A cell of the data frame holds a string, or \<open>NaN\<close> where the CSV field is empty
  (\<^const>\<open>None\<close>). The exceptions are the ones the notebooks' statements can raise.
\<close>

datatype py_error = ZeroDivisionError | TypeError | AttributeError | JSONDecodeError

type_synonym cell = "string option"

record csv_row =
  Event :: cell
  Sample :: cell
  Comments :: cell

record json_record =
  sample :: cell
  text' :: cell

definition acronym_map :: "(string \<times> string) list" where
  "acronym_map =
    [(''GO'', ''onion garlic''),
     (''O/G'', ''onion garlic''),
     (''ONG'', ''onion garlic''),
     (''DMTS'', ''dimethyl trisulfide''),
     (''T2N'', ''trans-2-nonenal''),
     (''H2S'', ''hydrogen sulfide''),
     (''IPA'', ''india pale ale''),
     (''IPL'', ''india pale lager'')]"

text \<open>
  \<open>Series.str\<close> is refused (\<open>AttributeError\<close>) on a column that is not of strings: of
  the columns of cells, that is the non-empty column in which every cell is \<open>NaN\<close>, which
  \<open>read_csv\<close> loads as floats. \<open>str.replace\<close> and \<open>str.count\<close> leave a \<open>NaN\<close> cell
  as it is, and \<open>sum\<close> skips it.
\<close>

definition str_accessor_ok :: "cell list \<Rightarrow> bool" where
  "str_accessor_ok col = (col = [] \<or> list_ex (\<lambda>c. c \<noteq> None) col)"

definition str_replace :: "string \<Rightarrow> string \<Rightarrow> cell list \<Rightarrow> cell list" where
  "str_replace pat repl col = map (map_option (re_sub pat repl)) col"

definition str_count_sum :: "string \<Rightarrow> cell list \<Rightarrow> nat" where
  "str_count_sum pat col =
     sum_list (map (\<lambda>c. case c of None \<Rightarrow> 0 | Some s \<Rightarrow> re_count pat s) col)"

text \<open>
  The cell "Expand acronyms": the loop over \<open>acronym_map.items()\<close>, then the special
  cases. It leaves the column and the two counters behind.
\<close>

record expanded =
  comments :: "cell list"
  plural_count :: nat
  ohai_count :: nat

definition apply_acronym_map :: "cell list \<Rightarrow> cell list" where
  "apply_acronym_map col = foldl (\<lambda>d (abbr, full). str_replace abbr full d) col acronym_map"

definition expand_acronyms :: "cell list \<Rightarrow> py_error + expanded" where
  "expand_acronyms col =
     (if \<not> str_accessor_ok col then Inl AttributeError
      else
        let d = apply_acronym_map col;
            pc = str_count_sum ''india pale ales'' d;
            oc = str_count_sum ''ohai'' d;
            d' = (if oc > 0 then str_replace ''ohai'' ''overall hop aroma intensity'' d else d)
        in Inr \<lparr>comments = d', plural_count = pc, ohai_count = oc\<rparr>)"

definition normalizer :: "cell list \<Rightarrow> py_error + cell list" where
  "normalizer col = map_sum id comments (expand_acronyms col)"

text \<open>The cells "Reshape data" and "Count words" (\<open>to_dict\<close>, the two partitions).\<close>

definition to_records :: "csv_row list \<Rightarrow> json_record list" where
  "to_records data = map (\<lambda>r. \<lparr>sample = Sample r, text' = Comments r\<rparr>) data"

definition texts_of :: "string \<Rightarrow> json_record list \<Rightarrow> cell list" where
  "texts_of s records = map text' (filter (\<lambda>item. sample item = Some s) records)"

definition hops_texts :: "json_record list \<Rightarrow> cell list" where
  "hops_texts records = texts_of ''Dried Hops'' records"

definition beer_texts :: "json_record list \<Rightarrow> cell list" where
  "beer_texts records = texts_of ''Beer'' records"

section \<open>The interchange document\<close>

text \<open>
  \<open>json.dump\<close> and \<open>json.load\<close> belong to Python's standard library. They are written
  out here for the values the notebooks pass through them: strings, \<open>NaN\<close>, lists and
  dictionaries with string keys. The file is opened as UTF-8 text on both sides, which
  gives back the characters that were written, so the document is the string itself.
\<close>

datatype json = JStr string | JNaN | JList "json list" | JDict "(string \<times> json) list"

text \<open>
  The encoder, as \<open>json.dump(records, f, indent=4, ensure_ascii=False)\<close> runs it: a
  string is quoted, with the quote, the backslash and the characters below 32 escaped; a
  float \<open>nan\<close> is written \<open>NaN\<close>; a list and a dictionary put each item on a line of its own,
  four spaces deeper per level.
\<close>

definition hex_digit :: "nat \<Rightarrow> char" where
  "hex_digit n = (if n < 10 then char_of (48 + n) else char_of (87 + n))"

definition escape_char :: "char \<Rightarrow> string" where
  "escape_char c =
     (if c = CHR 0x22 then [CHR 0x5C, CHR 0x22]
      else if c = CHR 0x5C then [CHR 0x5C, CHR 0x5C]
      else if c = CHR 0x08 then [CHR 0x5C, CHR ''b'']
      else if c = CHR 0x0C then [CHR 0x5C, CHR ''f'']
      else if c = CHR 0x0A then [CHR 0x5C, CHR ''n'']
      else if c = CHR 0x0D then [CHR 0x5C, CHR ''r'']
      else if c = CHR 0x09 then [CHR 0x5C, CHR ''t'']
      else if code c < 32
        then [CHR 0x5C, CHR ''u'', CHR ''0'', CHR ''0'',
              hex_digit (code c div 16), hex_digit (code c mod 16)]
      else [c])"

definition escaped :: "string \<Rightarrow> string" where
  "escaped s = concat (map escape_char s)"

definition encode_basestring :: "string \<Rightarrow> string" where
  "encode_basestring s = CHR 0x22 # escaped s @ [CHR 0x22]"

definition newline_indent :: "nat \<Rightarrow> string" where
  "newline_indent level = CHR 0x0A # replicate (4 * level) CHR '' ''"

fun join :: "string \<Rightarrow> string list \<Rightarrow> string" where
  "join sep [] = []"
| "join sep [x] = x"
| "join sep (x # y # ys) = x @ sep @ join sep (y # ys)"

fun iterencode :: "nat \<Rightarrow> json \<Rightarrow> string" where
  "iterencode level (JStr s) = encode_basestring s"
| "iterencode level JNaN = ''NaN''"
| "iterencode level (JList vs) =
     (if vs = [] then ''[]''
      else ''['' @ newline_indent (level + 1)
           @ join ('','' @ newline_indent (level + 1)) (map (iterencode (level + 1)) vs)
           @ newline_indent level @ '']'')"
| "iterencode level (JDict kvs) =
     (if kvs = [] then ''{}''
      else ''{'' @ newline_indent (level + 1)
           @ join ('','' @ newline_indent (level + 1))
               (map (\<lambda>kv. encode_basestring (fst kv) @ '': '' @ iterencode (level + 1) (snd kv)) kvs)
           @ newline_indent level @ ''}'')"

definition json_dump :: "json \<Rightarrow> string" where
  "json_dump obj = iterencode 0 obj"

text \<open>
  The decoder. \<open>scanstring\<close> reads a string behind its opening quote and returns it with
  the rest of the document; a \<open>\uXXXX\<close> escape is read as four hexadecimal digits, and one
  that names a code point from 256 on lies outside the characters modelled here. White
  space is blank, tab, line feed and carriage return.
\<close>

definition hex_val :: "char \<Rightarrow> nat option" where
  "hex_val c =
     (if 48 \<le> code c \<and> code c \<le> 57 then Some (code c - 48)
      else if 97 \<le> code c \<and> code c \<le> 102 then Some (code c - 87)
      else if 65 \<le> code c \<and> code c \<le> 70 then Some (code c - 55)
      else None)"

definition decode_uXXXX :: "char \<Rightarrow> char \<Rightarrow> char \<Rightarrow> char \<Rightarrow> nat option" where
  "decode_uXXXX a b c d =
     (case (hex_val a, hex_val b, hex_val c, hex_val d) of
        (Some x, Some y, Some z, Some w) \<Rightarrow> Some (((x * 16 + y) * 16 + z) * 16 + w)
      | _ \<Rightarrow> None)"

definition backslash :: "char \<Rightarrow> char option" where
  "backslash e =
     (if e = CHR 0x22 then Some (CHR 0x22)
      else if e = CHR 0x5C then Some (CHR 0x5C)
      else if e = CHR ''/'' then Some (CHR ''/'')
      else if e = CHR ''b'' then Some (CHR 0x08)
      else if e = CHR ''f'' then Some (CHR 0x0C)
      else if e = CHR ''n'' then Some (CHR 0x0A)
      else if e = CHR ''r'' then Some (CHR 0x0D)
      else if e = CHR ''t'' then Some (CHR 0x09)
      else None)"

definition with_char :: "char \<Rightarrow> (string \<times> string) option \<Rightarrow> (string \<times> string) option" where
  "with_char c r = map_option (\<lambda>(s, rest). (c # s, rest)) r"

fun scanstring :: "string \<Rightarrow> (string \<times> string) option" where
  "scanstring [] = None"
| "scanstring (c # cs) =
     (if c = CHR 0x22 then Some ([], cs)
      else if c = CHR 0x5C then
        (case cs of
           [] \<Rightarrow> None
         | e # r \<Rightarrow>
             if e = CHR ''u'' then
               (case r of
                  h1 # h2 # h3 # h4 # r' \<Rightarrow>
                    (case decode_uXXXX h1 h2 h3 h4 of
                       None \<Rightarrow> None
                     | Some n \<Rightarrow> if n < 256 then with_char (char_of n) (scanstring r') else None)
                | _ \<Rightarrow> None)
             else
               (case backslash e of
                  None \<Rightarrow> None
                | Some x \<Rightarrow> with_char x (scanstring r)))
      else if code c < 32 then None
      else with_char c (scanstring cs))"

definition is_ws :: "char \<Rightarrow> bool" where
  "is_ws c = (c = CHR '' '' \<or> c = CHR 0x09 \<or> c = CHR 0x0A \<or> c = CHR 0x0D)"

definition skip_ws :: "string \<Rightarrow> string" where
  "skip_ws s = dropWhile is_ws s"

text \<open>
  \<open>dict(pairs)\<close>: a key that comes again keeps its place and takes the later value.
\<close>

fun dict_set :: "string \<Rightarrow> json \<Rightarrow> (string \<times> json) list \<Rightarrow> (string \<times> json) list" where
  "dict_set k v [] = [(k, v)]"
| "dict_set k v ((k', v') # kvs) = (if k' = k then (k, v) # kvs else (k', v') # dict_set k v kvs)"

definition dict :: "(string \<times> json) list \<Rightarrow> (string \<times> json) list" where
  "dict pairs = foldl (\<lambda>d (k, v). dict_set k v d) [] pairs"

text \<open>
  The scanner proper. Its three loops call each other; \<open>fuel\<close> bounds how deep the
  calls go, and \<open>json_load\<close> gives as much as the document is long. Other JSON values (numbers, \<open>true\<close>, \<open>false\<close>, \<open>null\<close>,
  \<open>Infinity\<close>) are not among the values modelled and are read as an error.
\<close>

fun scan_once :: "nat \<Rightarrow> string \<Rightarrow> (json \<times> string) option"
  and JSONArray :: "nat \<Rightarrow> string \<Rightarrow> (json list \<times> string) option"
  and JSONObject :: "nat \<Rightarrow> string \<Rightarrow> ((string \<times> json) list \<times> string) option"
where
  "scan_once 0 s = None"
| "scan_once (Suc fuel) [] = None"
| "scan_once (Suc fuel) (c # cs) =
     (if c = CHR 0x22 then map_option (\<lambda>(x, rest). (JStr x, rest)) (scanstring cs)
      else if c = CHR ''['' then
        (case skip_ws cs of
           [] \<Rightarrow> None
         | d # ds \<Rightarrow>
             if d = CHR '']'' then Some (JList [], ds)
             else map_option (\<lambda>(vs, rest). (JList vs, rest)) (JSONArray fuel (d # ds)))
      else if c = CHR ''{'' then
        (case skip_ws cs of
           [] \<Rightarrow> None
         | d # ds \<Rightarrow>
             if d = CHR ''}'' then Some (JDict [], ds)
             else if d = CHR 0x22
               then map_option (\<lambda>(kvs, rest). (JDict (dict kvs), rest)) (JSONObject fuel ds)
             else None)
      else if take 3 (c # cs) = ''NaN'' then Some (JNaN, drop 3 (c # cs))
      else None)"
| "JSONArray 0 s = None"
| "JSONArray (Suc fuel) s =
     (case scan_once fuel s of
        None \<Rightarrow> None
      | Some (v, rest) \<Rightarrow>
          (case skip_ws rest of
             [] \<Rightarrow> None
           | d # ds \<Rightarrow>
               if d = CHR '']'' then Some ([v], ds)
               else if d = CHR '','' then
                 map_option (\<lambda>(vs, rest'). (v # vs, rest')) (JSONArray fuel (skip_ws ds))
               else None))"
| "JSONObject 0 s = None"
| "JSONObject (Suc fuel) s =
     (case scanstring s of
        None \<Rightarrow> None
      | Some (key, rest) \<Rightarrow>
          (case skip_ws rest of
             [] \<Rightarrow> None
           | d # ds \<Rightarrow>
               if d \<noteq> CHR '':'' then None
               else
                 (case scan_once fuel (skip_ws ds) of
                    None \<Rightarrow> None
                  | Some (v, rest') \<Rightarrow>
                      (case skip_ws rest' of
                         [] \<Rightarrow> None
                       | e # es \<Rightarrow>
                           if e = CHR ''}'' then Some ([(key, v)], es)
                           else if e = CHR '','' then
                             (case skip_ws es of
                                [] \<Rightarrow> None
                              | q # qs \<Rightarrow>
                                  if q = CHR 0x22
                                  then map_option (\<lambda>(kvs, rest''). ((key, v) # kvs, rest''))
                                         (JSONObject fuel qs)
                                  else None)
                           else None))))"

definition json_load :: "string \<Rightarrow> py_error + json" where
  "json_load s =
     (case scan_once (length s) (skip_ws s) of
        None \<Rightarrow> Inl JSONDecodeError
      | Some (obj, rest) \<Rightarrow> if skip_ws rest = [] then Inr obj else Inl JSONDecodeError)"

text \<open>The list of dictionaries that \<open>to_dict(orient="records")\<close> builds.\<close>

definition py_cell :: "cell \<Rightarrow> json" where
  "py_cell c = (case c of None \<Rightarrow> JNaN | Some s \<Rightarrow> JStr s)"

definition py_record :: "json_record \<Rightarrow> json" where
  "py_record r = JDict [(''sample'', py_cell (sample r)), (''text'', py_cell (text' r))]"

definition py_records :: "json_record list \<Rightarrow> json" where
  "py_records rs = JList (map py_record rs)"

section \<open>The collaborators\<close>

text \<open>
  NLTK and its data are not part of the repository: the tokenizer, the English stopword
  list and the WordNet lemmatizer are taken as they come.
\<close>

record nltk =
  word_tokenize :: "string \<Rightarrow> string list"
  stopwords_english :: "string list"
  lemmatize :: "string \<Rightarrow> string"

definition word_count :: "nltk \<Rightarrow> cell \<Rightarrow> nat" where
  "word_count nl t = (case t of None \<Rightarrow> 0 | Some s \<Rightarrow> length (word_tokenize nl s))"

section \<open>Notebook 2: n-grams\<close>

definition important_words :: "string list" where
  "important_words = [''not'', ''no'', ''very'', ''never'']"

definition stop_words :: "nltk \<Rightarrow> string set" where
  "stop_words nl = set (stopwords_english nl) - set important_words"

text \<open>\<open>text.lower()\<close>, then the two \<open>re.sub\<close> that delete punctuation and digits.\<close>

definition preprocess :: "string \<Rightarrow> string" where
  "preprocess t =
     filter (\<lambda>c. \<not> is_digit c) (filter (\<lambda>c. is_word c \<or> is_space c) (map lower t))"

definition keep_token :: "nltk \<Rightarrow> string \<Rightarrow> bool" where
  "keep_token nl tok = (tok \<notin> stop_words nl \<and> length tok > 2)"

definition surviving :: "nltk \<Rightarrow> string \<Rightarrow> string list" where
  "surviving nl t = filter (keep_token nl) (word_tokenize nl (preprocess t))"

definition cleaned_tokens :: "nltk \<Rightarrow> string \<Rightarrow> string list" where
  "cleaned_tokens nl t = map (lemmatize nl) (surviving nl t)"

definition bigram_at :: "string list \<Rightarrow> nat \<Rightarrow> string" where
  "bigram_at toks i = toks ! i @ '' '' @ toks ! (i + 1)"

definition trigram_at :: "string list \<Rightarrow> nat \<Rightarrow> string" where
  "trigram_at toks i = toks ! i @ '' '' @ toks ! (i + 1) @ '' '' @ toks ! (i + 2)"

definition bigrams_of :: "string list \<Rightarrow> string list" where
  "bigrams_of toks = map (bigram_at toks) [0..<length toks - 1]"

definition trigrams_of :: "string list \<Rightarrow> string list" where
  "trigrams_of toks = map (trigram_at toks) [0..<length toks - 2]"

text \<open>
  The loop over the partition's texts fills three lists. \<open>text.lower()\<close> on a \<open>NaN\<close>
  (a float) raises \<open>AttributeError\<close>.
\<close>

record ngram_lists =
  words :: "string list"
  bigrams :: "string list"
  trigrams :: "string list"

fun ngram_loop :: "nltk \<Rightarrow> ngram_lists \<Rightarrow> cell list \<Rightarrow> py_error + ngram_lists" where
  "ngram_loop nl acc [] = Inr acc"
| "ngram_loop nl acc (None # ts) = Inl AttributeError"
| "ngram_loop nl acc (Some t # ts) =
     (let toks = cleaned_tokens nl t
      in ngram_loop nl
           \<lparr>words = words acc @ toks,
            bigrams = bigrams acc @ bigrams_of toks,
            trigrams = trigrams acc @ trigrams_of toks\<rparr> ts)"

text \<open>
  \<open>collections.Counter\<close>: a dictionary in the order its keys were first seen.
\<close>

fun bump :: "'a \<Rightarrow> ('a \<times> nat) list \<Rightarrow> ('a \<times> nat) list" where
  "bump x [] = [(x, 1)]"
| "bump x ((k, n) # kvs) = (if k = x then (k, Suc n) # kvs else (k, n) # bump x kvs)"

definition Counter :: "'a list \<Rightarrow> ('a \<times> nat) list" where
  "Counter xs = foldl (\<lambda>c x. bump x c) [] xs"

record ngram_counts =
  unigram_counts :: "(string \<times> nat) list"
  bigram_counts :: "(string \<times> nat) list"
  trigram_counts :: "(string \<times> nat) list"

definition ngram_analysis :: "nltk \<Rightarrow> cell list \<Rightarrow> py_error + ngram_counts" where
  "ngram_analysis nl texts =
     (case ngram_loop nl \<lparr>words = [], bigrams = [], trigrams = []\<rparr> texts of
        Inl e \<Rightarrow> Inl e
      | Inr g \<Rightarrow> Inr \<lparr>unigram_counts = Counter (words g),
                      bigram_counts = Counter (bigrams g),
                      trigram_counts = Counter (trigrams g)\<rparr>)"

section \<open>Notebook 2: onion/garlic and the descriptor categories\<close>

text \<open>
  A pattern \<open>\b(a|b|c)\b\<close> is the list of its alternatives. \<open>re.search\<close> on a \<open>NaN\<close>
  raises \<open>TypeError\<close>. The two cells count in two ways: \<open>sum(1 for txt in texts if
  re.search(...))\<close> and \<open>sum(bool(re.search(...)) for text in texts)\<close>.
\<close>

definition onion_garlic_pattern :: "string list" where
  "onion_garlic_pattern = [''onion'', ''garlic'']"

fun sum_ones_if :: "string list \<Rightarrow> nat \<Rightarrow> cell list \<Rightarrow> py_error + nat" where
  "sum_ones_if alts acc [] = Inr acc"
| "sum_ones_if alts acc (None # ts) = Inl TypeError"
| "sum_ones_if alts acc (Some t # ts) =
     (if re_search alts t then sum_ones_if alts (acc + 1) ts else sum_ones_if alts acc ts)"

fun sum_bools :: "string list \<Rightarrow> nat \<Rightarrow> cell list \<Rightarrow> py_error + nat" where
  "sum_bools alts acc [] = Inr acc"
| "sum_bools alts acc (None # ts) = Inl TypeError"
| "sum_bools alts acc (Some t # ts) = sum_bools alts (acc + of_bool (re_search alts t)) ts"

text \<open>
  The onion/garlic cell prints the count and \<open>count / len(texts) * 100\<close>. The quotient of
  two Python integers is a float; it is kept here as the exact fraction.
\<close>

record og_report =
  og_count :: nat
  og_total :: nat
  og_percent :: rat

definition onion_garlic_analysis :: "cell list \<Rightarrow> py_error + og_report" where
  "onion_garlic_analysis texts =
     (case sum_ones_if onion_garlic_pattern 0 texts of
        Inl e \<Rightarrow> Inl e
      | Inr n \<Rightarrow>
          if length texts = 0 then Inl ZeroDivisionError
          else Inr \<lparr>og_count = n, og_total = length texts,
                    og_percent = of_nat n / of_nat (length texts) * 100\<rparr>)"

definition descriptor_categories :: "(string \<times> string list) list" where
  "descriptor_categories =
    [(''tropical fruits'',
        [''tropical'', ''pineapple'', ''mango'', ''passion'', ''papaya'', ''guava'', ''lychee'']),
     (''citrus fruits'',
        [''citrus'', ''orange'', ''grapefruit'', ''lemon'', ''lime'', ''tangerine'', ''mandarin'',
         ''yuzu'', ''tangelo'']),
     (''stone fruits'', [''stone fruit'', ''peach'', ''nectarine'', ''apricot'', ''plum'']),
     (''fruit (general)'', [''fruit'', ''fruity'']),
     (''onion garlic'', [''onion'', ''garlic'']),
     (''melons'', [''melon'', ''watermelon'', ''cantaloupe'', ''honeydew'']),
     (''berries'', [''berry'', ''strawberry'', ''blackberry'', ''blueberry'', ''raspberry''])]"

record prevalence_row =
  category :: string
  n_comments :: nat
  pct_comments :: rat
  n_total :: nat

text \<open>
  The loop over \<open>descriptor_categories.items()\<close> that fills \<open>hops_rows\<close> (and
  \<open>beer_rows\<close>): the count first, then \<open>n / total\<close>, which raises
  \<open>ZeroDivisionError\<close> when the partition is empty. The data frame built from the rows
  is the same rows in another order.
\<close>

fun prevalence_loop ::
  "prevalence_row list \<Rightarrow> (string \<times> string list) list \<Rightarrow> cell list \<Rightarrow> py_error + prevalence_row list"
where
  "prevalence_loop rows [] texts = Inr rows"
| "prevalence_loop rows ((label, pattern) # cats) texts =
     (case sum_bools pattern 0 texts of
        Inl e \<Rightarrow> Inl e
      | Inr n \<Rightarrow>
          if length texts = 0 then Inl ZeroDivisionError
          else prevalence_loop
                 (rows @ [\<lparr>category = label, n_comments = n,
                           pct_comments = of_nat n / of_nat (length texts),
                           n_total = length texts\<rparr>]) cats texts)"

definition prevalence :: "cell list \<Rightarrow> py_error + prevalence_row list" where
  "prevalence texts = prevalence_loop [] descriptor_categories texts"

text \<open>
  Stand-ins for the collaborators, used where a statement is run on a concrete input:
  a tokenizer that splits at white space, a four-word stopword list, and a lemmatizer
  that changes nothing.
\<close>

fun split_ws :: "string \<Rightarrow> string \<Rightarrow> string list" where
  "split_ws cur [] = (if cur = [] then [] else [cur])"
| "split_ws cur (c # cs) =
     (if is_space c then (if cur = [] then split_ws [] cs else cur # split_ws [] cs)
      else split_ws (cur @ [c]) cs)"

definition toy_nltk :: nltk where
  "toy_nltk = \<lparr>word_tokenize = split_ws [],
               stopwords_english = [''the'', ''and'', ''not'', ''no''],
               lemmatize = (\<lambda>w. w)\<rparr>"

text \<open>What a table of counts and a partition's counts say, read as mappings.\<close>

definition n_matching :: "string list \<Rightarrow> cell list \<Rightarrow> nat" where
  "n_matching alts texts =
     length (filter (\<lambda>t. case t of None \<Rightarrow> False | Some s \<Rightarrow> re_search alts s) texts)"

definition row_of :: "cell list \<Rightarrow> string \<times> string list \<Rightarrow> prevalence_row" where
  "row_of texts = (\<lambda>(label, pattern).
     \<lparr>category = label, n_comments = n_matching pattern texts,
      pct_comments = of_nat (n_matching pattern texts) / of_nat (length texts),
      n_total = length texts\<rparr>)"

definition lookup_counts ::
  "ngram_counts \<Rightarrow> (string \<rightharpoonup> nat) \<times> (string \<rightharpoonup> nat) \<times> (string \<rightharpoonup> nat)" where
  "lookup_counts c =
     (map_of (unigram_counts c), map_of (bigram_counts c), map_of (trigram_counts c))"

definition tokens_of :: "nltk \<Rightarrow> cell \<Rightarrow> string list" where
  "tokens_of nl t = (case t of None \<Rightarrow> [] | Some s \<Rightarrow> cleaned_tokens nl s)"

section \<open>Vocabulary for the normalizer's idempotence\<close>

text \<open>
  The whole normalization of one text: the keys of \<open>acronym_map\<close> in map order, then
  \<open>ohai\<close>. A key or an expansion is well formed when it begins and ends with a word
  character. A key \<open>K\<close> and an expansion \<open>R\<close> are compatible when, lower-cased, \<open>K\<close>
  cannot begin anywhere inside \<open>R\<close> (\<open>no_overlap\<close>), and \<open>R\<close> does not begin with a
  character that \<open>K\<close> has right behind a non-word character (\<open>danger\<close>).
\<close>

definition wf_lit :: "string \<Rightarrow> bool" where
  "wf_lit k = (k \<noteq> [] \<and> is_word (hd k) \<and> is_word (last k))"

fun agree :: "string \<Rightarrow> string \<Rightarrow> bool" where
  "agree [] a = True"
| "agree (k # ks) [] = True"
| "agree (k # ks) (c # cs) = (k = c \<and> agree ks cs)"

fun no_overlap :: "string \<Rightarrow> string \<Rightarrow> bool" where
  "no_overlap K [] = True"
| "no_overlap K (r # rs) = (\<not> agree K (r # rs) \<and> no_overlap K rs)"

fun danger :: "bool \<Rightarrow> string \<Rightarrow> string" where
  "danger pw [] = []"
| "danger pw (k # ks) = (if pw then [] else [k]) @ danger (is_word k) ks"

definition compatible :: "string \<Rightarrow> string \<Rightarrow> bool" where
  "compatible K R =
     (no_overlap (map lower K) (map lower R) \<and>
      lower (hd R) \<notin> set (danger (is_word (hd K)) (map lower (tl K))))"

definition all_steps :: "(string \<times> string) list" where
  "all_steps = acronym_map @ [(''ohai'', ''overall hop aroma intensity'')]"

fun step :: "string \<Rightarrow> string \<times> string \<Rightarrow> string" where
  "step s (abbr, full) = re_sub abbr full s"

definition normalize_text :: "string \<Rightarrow> string" where
  "normalize_text s = foldl step s all_steps"


section \<open>Counting matches\<close>

lemma sum_bools_eq:
  "sum_bools alts acc ts =
     (if None \<in> set ts then Inl TypeError else Inr (acc + n_matching alts ts))"
proof (induction ts arbitrary: acc)
  case Nil
  show ?case by (simp add: n_matching_def)
next
  case (Cons t ts)
  show ?case
  proof (cases t)
    case None
    then show ?thesis by simp
  next
    case (Some s)
    then show ?thesis using Cons.IH by (simp add: n_matching_def)
  qed
qed

lemma sum_ones_if_eq:
  "sum_ones_if alts acc ts =
     (if None \<in> set ts then Inl TypeError else Inr (acc + n_matching alts ts))"
proof (induction ts arbitrary: acc)
  case Nil
  show ?case by (simp add: n_matching_def)
next
  case (Cons t ts)
  show ?case
  proof (cases t)
    case None
    then show ?thesis by simp
  next
    case (Some s)
    then show ?thesis using Cons.IH by (simp add: n_matching_def)
  qed
qed

lemma n_matching_le: "n_matching alts ts \<le> length ts"
  by (simp add: n_matching_def)

lemma n_matching_mset:
  "mset ts' = mset ts \<Longrightarrow> n_matching alts ts' = n_matching alts ts"
proof -
  assume eq: "mset ts' = mset ts"
  let ?Q = "\<lambda>t. case t of None \<Rightarrow> False | Some s \<Rightarrow> re_search alts s"
  have "mset (filter ?Q ts') = mset (filter ?Q ts)"
    using eq by simp
  then have "length (filter ?Q ts') = length (filter ?Q ts)"
    by (rule mset_eq_length)
  then show ?thesis by (simp add: n_matching_def)
qed

lemma prevalence_loop_eq:
  "prevalence_loop rows cats ts =
     (if cats = [] then Inr rows
      else if None \<in> set ts then Inl TypeError
      else if ts = [] then Inl ZeroDivisionError
      else Inr (rows @ map (row_of ts) cats))"
proof (induction cats arbitrary: rows)
  case Nil
  show ?case by simp
next
  case (Cons cat cats)
  obtain label pattern where cat: "cat = (label, pattern)" by (cases cat)
  show ?case
    using Cons.IH by (simp add: cat sum_bools_eq row_of_def)
qed

lemma prevalence_eq:
  "prevalence ts =
     (if None \<in> set ts then Inl TypeError
      else if ts = [] then Inl ZeroDivisionError
      else Inr (map (row_of ts) descriptor_categories))"
  by (simp add: prevalence_def prevalence_loop_eq descriptor_categories_def)

lemma onion_garlic_analysis_eq:
  "onion_garlic_analysis ts =
     (if None \<in> set ts then Inl TypeError
      else if ts = [] then Inl ZeroDivisionError
      else Inr \<lparr>og_count = n_matching onion_garlic_pattern ts, og_total = length ts,
                og_percent = of_nat (n_matching onion_garlic_pattern ts) / of_nat (length ts) * 100\<rparr>)"
  by (simp add: onion_garlic_analysis_def sum_ones_if_eq)

lemma row_of_mset: "mset ts' = mset ts \<Longrightarrow> row_of ts' = row_of ts"
proof -
  assume eq: "mset ts' = mset ts"
  have len: "length ts' = length ts" using eq by (rule mset_eq_length)
  show ?thesis
    by (rule ext) (simp add: row_of_def len n_matching_mset [OF eq] split: prod.splits)
qed

lemma prevalence_mset: "mset ts' = mset ts \<Longrightarrow> prevalence ts' = prevalence ts"
proof -
  assume eq: "mset ts' = mset ts"
  have "set ts' = set ts" using eq by (rule mset_eq_setD)
  moreover have "ts' = [] \<longleftrightarrow> ts = []" using eq by (metis mset_zero_iff)
  ultimately show ?thesis
    by (simp add: prevalence_eq row_of_mset [OF eq])
qed

lemma onion_garlic_analysis_mset:
  "mset ts' = mset ts \<Longrightarrow> onion_garlic_analysis ts' = onion_garlic_analysis ts"
proof -
  assume eq: "mset ts' = mset ts"
  have "set ts' = set ts" using eq by (rule mset_eq_setD)
  moreover have "ts' = [] \<longleftrightarrow> ts = []" using eq by (metis mset_zero_iff)
  moreover have "length ts' = length ts" using eq by (rule mset_eq_length)
  ultimately show ?thesis
    by (simp add: onion_garlic_analysis_eq n_matching_mset [OF eq])
qed

lemma texts_of_mset:
  "mset records' = mset records \<Longrightarrow> mset (texts_of s records') = mset (texts_of s records)"
  by (simp add: texts_of_def)

section \<open>Counters and the n-gram loop\<close>

lemma map_of_bump:
  "map_of (bump x c) = (map_of c)(x \<mapsto> (case map_of c x of None \<Rightarrow> 1 | Some n \<Rightarrow> Suc n))"
  by (induction c) (auto simp: fun_eq_iff)

lemma keys_bump: "fst ` set (bump x c) = insert x (fst ` set c)"
proof (induction c)
  case Nil
  show ?case by simp
next
  case (Cons kv c)
  obtain k n where kv: "kv = (k, n)" by (cases kv)
  show ?case
  proof (cases "k = x")
    case True
    then show ?thesis by (simp add: kv)
  next
    case False
    then show ?thesis using Cons.IH by (simp add: kv insert_commute)
  qed
qed

lemma distinct_bump: "distinct (map fst c) \<Longrightarrow> distinct (map fst (bump x c))"
proof (induction c)
  case Nil
  show ?case by simp
next
  case (Cons kv c)
  obtain k n where kv: "kv = (k, n)" by (cases kv)
  have "k \<noteq> x \<Longrightarrow> k \<notin> fst ` set (bump x c)"
    using Cons.prems by (simp add: kv keys_bump)
  then show ?case using Cons by (auto simp: kv)
qed

lemma map_of_count_loop:
  "map_of (foldl (\<lambda>c x. bump x c) c0 xs) k =
     (case map_of c0 k of
        None \<Rightarrow> if k \<in> set xs then Some (count_list xs k) else None
      | Some n \<Rightarrow> Some (n + count_list xs k))"
proof (induction xs arbitrary: c0)
  case Nil
  show ?case by (simp split: option.splits)
next
  case (Cons x xs)
  show ?case
    by (simp add: Cons.IH map_of_bump split: option.splits)
qed

lemma distinct_count_loop:
  "distinct (map fst c0) \<Longrightarrow> distinct (map fst (foldl (\<lambda>c x. bump x c) c0 xs))"
  by (induction xs arbitrary: c0) (simp_all add: distinct_bump)

lemma map_of_Counter:
  "map_of (Counter xs) k = (if k \<in> set xs then Some (count_list xs k) else None)"
  by (simp add: Counter_def map_of_count_loop)

lemma distinct_Counter: "distinct (map fst (Counter xs))"
  by (simp add: Counter_def distinct_count_loop)

lemma in_Counter_iff:
  "(k, n) \<in> set (Counter xs) \<longleftrightarrow> k \<in> set xs \<and> n = count_list xs k"
proof -
  have "(k, n) \<in> set (Counter xs) \<longleftrightarrow> map_of (Counter xs) k = Some n"
    using distinct_Counter [of xs] by simp
  then show ?thesis by (auto simp: map_of_Counter)
qed

lemma map_of_Counter_mset:
  "mset xs' = mset xs \<Longrightarrow> map_of (Counter xs') = map_of (Counter xs)"
proof (rule ext)
  fix k
  assume eq: "mset xs' = mset xs"
  have "set xs' = set xs" using eq by (rule mset_eq_setD)
  moreover have "count_list xs' k = count_list xs k"
    using eq by (metis count_mset)
  ultimately show "map_of (Counter xs') k = map_of (Counter xs) k"
    by (simp add: map_of_Counter)
qed

lemma mset_concat_map:
  "mset ts' = mset ts \<Longrightarrow> mset (concat (map f ts')) = mset (concat (map f ts))"
proof -
  assume eq: "mset ts' = mset ts"
  have "mset (concat (map f ts')) = sum_mset (image_mset (\<lambda>t. mset (f t)) (mset ts'))"
    by (simp add: mset_concat comp_def flip: sum_mset_sum_list)
  also have "\<dots> = sum_mset (image_mset (\<lambda>t. mset (f t)) (mset ts))"
    by (simp add: eq)
  also have "\<dots> = mset (concat (map f ts))"
    by (simp add: mset_concat comp_def flip: sum_mset_sum_list)
  finally show ?thesis .
qed

lemma count_list_concat_map:
  "count_list (concat (map f ts)) g = (\<Sum>t\<leftarrow>ts. count_list (f t) g)"
  by (induction ts) simp_all

lemma count_list_map_upt:
  "count_list (map h is) g = length (filter (\<lambda>i. h i = g) is)"
  by (induction "is") simp_all

lemma tokens_of_Some: "tokens_of nl (Some s) = cleaned_tokens nl s"
  by (simp add: tokens_of_def)

lemma ngram_loop_eq:
  "ngram_loop nl acc ts =
     (if None \<in> set ts then Inl AttributeError
      else Inr \<lparr>words = words acc @ concat (map (tokens_of nl) ts),
                bigrams = bigrams acc @ concat (map (\<lambda>t. bigrams_of (tokens_of nl t)) ts),
                trigrams = trigrams acc @ concat (map (\<lambda>t. trigrams_of (tokens_of nl t)) ts)\<rparr>)"
proof (induction ts arbitrary: acc)
  case Nil
  show ?case by simp
next
  case (Cons t ts)
  show ?case
  proof (cases t)
    case None
    then show ?thesis by simp
  next
    case (Some s)
    then show ?thesis using Cons.IH by (simp add: Let_def tokens_of_Some)
  qed
qed

lemma ngram_analysis_eq:
  "ngram_analysis nl ts =
     (if None \<in> set ts then Inl AttributeError
      else Inr \<lparr>unigram_counts = Counter (concat (map (tokens_of nl) ts)),
                bigram_counts = Counter (concat (map (\<lambda>t. bigrams_of (tokens_of nl t)) ts)),
                trigram_counts = Counter (concat (map (\<lambda>t. trigrams_of (tokens_of nl t)) ts))\<rparr>)"
  by (simp add: ngram_analysis_def ngram_loop_eq)

lemma ngram_analysis_mset:
  assumes eq: "mset ts' = mset ts"
  shows "map_sum id lookup_counts (ngram_analysis nl ts') =
         map_sum id lookup_counts (ngram_analysis nl ts)"
proof -
  have "set ts' = set ts" using eq by (rule mset_eq_setD)
  then show ?thesis
    by (simp add: ngram_analysis_eq lookup_counts_def
        map_of_Counter_mset [OF mset_concat_map [OF eq]])
qed

section \<open>Matches of one key after the replacement of another\<close>

lemma code_shift: "code c \<le> 222 \<Longrightarrow> code (char_of (code c + 32)) = code c + 32"
  by (simp add: code_def)

lemma is_word_lower: "is_word (lower c) = is_word c"
proof (cases "is_upper c")
  case False
  then show ?thesis by (simp add: lower_def)
next
  case True
  then have le: "code c \<le> 222" by (auto simp: is_upper_def)
  have a: "is_alpha c" using True by (auto simp: is_upper_def is_alpha_def)
  have b: "is_alpha (lower c)"
    using True by (auto simp: lower_def is_upper_def is_alpha_def code_shift [OF le])
  show ?thesis using a b by (simp add: is_word_def)
qed

lemma same_lower_is_word: "lower c = lower k \<Longrightarrow> is_word c = is_word k"
  by (metis is_word_lower)

declare sub_from.simps [simp del] count_from.simps [simp del]

subsection \<open>One match\<close>

lemma lit_then_wb_length: "lit_then_wb lit pw s \<Longrightarrow> length lit \<le> length s"
proof (induction lit arbitrary: pw s)
  case Nil
  show ?case by simp
next
  case (Cons k ks)
  then show ?case by (cases s) auto
qed

lemma lit_then_wb_end:
  "lit_then_wb lit pw s \<Longrightarrow> lit \<noteq> [] \<Longrightarrow>
     is_word (last (take (length lit) s)) = is_word (last lit) \<and>
     is_word (last lit) \<noteq> first_is_word (drop (length lit) s)"
proof (induction lit arbitrary: pw s)
  case Nil
  then show ?case by simp
next
  case (Cons k ks)
  from Cons.prems(1) obtain c cs where s: "s = c # cs"
    by (cases s) simp_all
  from Cons.prems(1) have ck: "lower c = lower k" and rest: "lit_then_wb ks (is_word c) cs"
    unfolding s by simp_all
  have w: "is_word c = is_word k" using ck by (rule same_lower_is_word)
  show ?case
  proof (cases ks)
    case Nil
    have "is_word c \<noteq> first_is_word cs" using rest unfolding Nil by simp
    then show ?thesis unfolding s Nil using w by simp
  next
    case (Cons k' ks')
    have len: "length ks \<le> length cs" using rest by (rule lit_then_wb_length)
    then obtain c' cs' where cs: "cs = c' # cs'" unfolding Cons by (cases cs) simp_all
    have ne: "take (length ks) cs \<noteq> []" unfolding Cons cs by simp
    have ih: "is_word (last (take (length ks) cs)) = is_word (last ks) \<and>
          is_word (last ks) \<noteq> first_is_word (drop (length ks) cs)"
      by (rule Cons.IH [OF rest]) (simp add: Cons)
    have t: "take (length (k # ks)) s = c # take (length ks) cs" unfolding s by simp
    have d: "drop (length (k # ks)) s = drop (length ks) cs" unfolding s by simp
    have l: "last (k # ks) = last ks" unfolding Cons by simp
    show ?thesis unfolding t d l using ih ne by simp
  qed
qed

lemma match_at_start:
  assumes "match_at [lit] pw s" and "wf_lit lit"
  shows "\<not> pw \<and> first_is_word s"
proof -
  obtain k ks where lit: "lit = k # ks" using assms(2) by (cases lit) (auto simp: wf_lit_def)
  have k: "is_word k" using assms(2) by (simp add: wf_lit_def lit)
  from assms(1) obtain c cs where s: "s = c # cs" and ck: "lower c = lower k"
    by (cases s) (auto simp: match_at_def lit)
  from ck have "is_word c = is_word k" by (rule same_lower_is_word)
  then show ?thesis using assms(1) k by (auto simp: match_at_def s)
qed

lemma match_at_end:
  assumes "match_at [lit] pw s" and "wf_lit lit"
  shows "length lit \<le> length s \<and> is_word (last (take (length lit) s)) \<and>
         \<not> first_is_word (drop (length lit) s)"
proof -
  have m: "lit_then_wb lit pw s" using assms(1) by (auto simp: match_at_def)
  show ?thesis
    using lit_then_wb_length [OF m] lit_then_wb_end [OF m] assms(2) by (auto simp: wf_lit_def)
qed

lemma no_match_empty: "lit \<noteq> [] \<Longrightarrow> \<not> match_at [lit] pw []"
  by (cases lit) (simp_all add: match_at_def)

subsection \<open>Where nothing matches, nothing changes\<close>

lemma sub_from_no_match:
  "\<not> search_from [lit] pw s \<Longrightarrow> sub_from lit repl pw s = s"
  by (induction s arbitrary: pw) (simp_all add: sub_from.simps)

lemma count_from_zero_iff:
  "lit \<noteq> [] \<Longrightarrow> count_from lit pw s = 0 \<longleftrightarrow> \<not> search_from [lit] pw s"
proof (induction lit pw s rule: count_from.induct)
  case (1 lit pw)
  then show ?case by (simp add: no_match_empty count_from.simps)
next
  case (2 lit pw c cs)
  show ?case
  proof (cases "match_at [lit] pw (c # cs)")
    case True
    then show ?thesis using "2.prems" by (simp add: count_from.simps)
  next
    case False
    then show ?thesis using "2.IH"(2) "2.prems" by (simp add: count_from.simps)
  qed
qed

lemma search_from_suffix:
  "search_from alts (is_word (last a)) b \<Longrightarrow> a \<noteq> [] \<Longrightarrow> search_from alts pw (a @ b)"
proof (induction a arbitrary: pw)
  case Nil
  then show ?case by simp
next
  case (Cons x xs)
  show ?case
  proof (cases "xs = []")
    case True
    then show ?thesis using Cons.prems by simp
  next
    case False
    then have "search_from alts (is_word x) (xs @ b)"
      using Cons.IH Cons.prems by simp
    then show ?thesis by simp
  qed
qed

lemma search_from_drop:
  assumes "search_from alts (is_word (last (take n s))) (drop n s)" and "0 < n" and "n \<le> length s"
  shows "search_from alts pw s"
proof -
  have "take n s \<noteq> []" using assms(2,3) by (cases s) auto
  from search_from_suffix [OF assms(1) this, of pw] show ?thesis by simp
qed

subsection \<open>A replacement brings no new match\<close>

lemma first_is_word_sub_from:
  assumes "wf_lit J" and "wf_lit R"
  shows "first_is_word (sub_from J R pw s) = first_is_word s"
proof (cases s)
  case Nil
  then show ?thesis by (simp add: sub_from.simps)
next
  case (Cons c cs)
  obtain r rs where R: "R = r # rs" using assms(2) by (cases R) (auto simp: wf_lit_def)
  have r: "is_word r" using assms(2) by (simp add: wf_lit_def R)
  show ?thesis
  proof (cases "match_at [J] pw (c # cs)")
    case True
    from match_at_start [OF True assms(1)] have "is_word c" by simp
    then show ?thesis using True r by (simp add: Cons R sub_from.simps)
  next
    case False
    then show ?thesis by (simp add: Cons sub_from.simps)
  qed
qed

lemma lit_then_wb_agree:
  "lit_then_wb K pw (a @ x) \<Longrightarrow> agree (map lower K) (map lower a)"
proof (induction K arbitrary: pw a)
  case Nil
  show ?case by simp
next
  case (Cons k ks)
  then show ?case by (cases a) auto
qed

lemma search_through_replacement:
  assumes "no_overlap (map lower K) (map lower R)" and "K \<noteq> []"
  shows "search_from [K] pw (R @ x) =
           search_from [K] (if R = [] then pw else is_word (last R)) x"
  using assms(1)
proof (induction R arbitrary: pw)
  case Nil
  show ?case by simp
next
  case (Cons r rs)
  have "\<not> match_at [K] pw ((r # rs) @ x)"
  proof
    assume "match_at [K] pw ((r # rs) @ x)"
    then have "lit_then_wb K pw ((r # rs) @ x)" by (auto simp: match_at_def)
    then have "agree (map lower K) (map lower (r # rs))" by (rule lit_then_wb_agree)
    then show False using Cons.prems by simp
  qed
  moreover have "search_from [K] (is_word r) (rs @ x) =
      search_from [K] (if rs = [] then is_word r else is_word (last rs)) x"
    using Cons.IH Cons.prems by simp
  ultimately show ?case by simp
qed

lemma lit_then_wb_sub_from:
  assumes J: "wf_lit J" and R: "wf_lit R"
  shows "lower (hd R) \<notin> set (danger pw (map lower K)) \<Longrightarrow>
         lit_then_wb K pw (sub_from J R pw s) \<Longrightarrow> lit_then_wb K pw s"
proof (induction K arbitrary: pw s)
  case Nil
  then show ?case by (simp add: first_is_word_sub_from [OF J R])
next
  case (Cons k ks)
  obtain r rs where Rr: "R = r # rs" using R by (cases R) (auto simp: wf_lit_def)
  show ?case
  proof (cases s)
    case Nil
    then show ?thesis using Cons.prems by (simp add: sub_from.simps)
  next
    case (Cons c cs)
    show ?thesis
    proof (cases "match_at [J] pw (c # cs)")
      case True
      from match_at_start [OF True J] have "\<not> pw" by simp
      moreover have "lower r = lower k"
        using Cons.prems(2) True J by (simp add: Cons Rr wf_lit_def sub_from.simps)
      ultimately show ?thesis using Cons.prems(1) by (simp add: Rr)
    next
      case False
      then have out: "sub_from J R pw s = c # sub_from J R (is_word c) cs"
        by (simp add: Cons sub_from.simps)
      from Cons.prems(2) have ck: "lower c = lower k"
        and rest: "lit_then_wb ks (is_word c) (sub_from J R (is_word c) cs)"
        by (simp_all add: out)
      have w: "is_word (lower k) = is_word c"
        using ck by (metis is_word_lower)
      have "lower (hd R) \<notin> set (danger (is_word c) (map lower ks))"
        using Cons.prems(1) w by simp
      from Cons.IH [OF this rest] show ?thesis using ck by (simp add: Cons)
    qed
  qed
qed

lemma match_at_sub_from:
  assumes J: "wf_lit J" and R: "wf_lit R" and K: "wf_lit K" and c: "compatible K R"
    and nomatch: "\<not> match_at [J] pw s"
    and m: "match_at [K] pw (sub_from J R pw s)"
  shows "match_at [K] pw s"
proof (cases s)
  case Nil
  then show ?thesis using m by (simp add: sub_from.simps)
next
  case (Cons c' cs)
  obtain k ks where Kk: "K = k # ks" using K by (cases K) (auto simp: wf_lit_def)
  have out: "sub_from J R pw s = c' # sub_from J R (is_word c') cs"
    using nomatch by (simp add: Cons sub_from.simps)
  from m have b: "pw \<noteq> is_word c'" and ck: "lower c' = lower k"
    and rest: "lit_then_wb ks (is_word c') (sub_from J R (is_word c') cs)"
    by (simp_all add: match_at_def out Kk)
  have "is_word c' = is_word k" using ck by (rule same_lower_is_word)
  then have "lower (hd R) \<notin> set (danger (is_word c') (map lower ks))"
    using c by (simp add: compatible_def Kk)
  from lit_then_wb_sub_from [OF J R this rest]
  show ?thesis using b ck by (simp add: match_at_def Cons Kk)
qed

lemma search_from_sub_from:
  "wf_lit J \<Longrightarrow> wf_lit R \<Longrightarrow> wf_lit K \<Longrightarrow> compatible K R \<Longrightarrow>
   search_from [K] pw (sub_from J R pw s) \<Longrightarrow> search_from [K] pw s \<and> K \<noteq> J"
proof (induction J R pw s rule: sub_from.induct)
  case (1 lit repl pw)
  then show ?case by (simp add: no_match_empty wf_lit_def sub_from.simps)
next
  case (2 lit repl pw c cs)
  note J = \<open>wf_lit lit\<close> and R = \<open>wf_lit repl\<close> and K = \<open>wf_lit K\<close> and cp = \<open>compatible K repl\<close>
  have Kne: "K \<noteq> []" using K by (simp add: wf_lit_def)
  have Jne: "lit \<noteq> []" using J by (simp add: wf_lit_def)
  have Rne: "repl \<noteq> []" and Rlast: "is_word (last repl)" using R by (simp_all add: wf_lit_def)
  let ?n = "length lit"
  show ?case
  proof (cases "match_at [lit] pw (c # cs)")
    case True
    let ?pw' = "is_word (last (take ?n (c # cs)))"
    let ?rest = "drop ?n (c # cs)"
    from match_at_end [OF True J] have len: "?n \<le> length (c # cs)" and pw': "?pw'"
      by simp_all
    have out: "sub_from lit repl pw (c # cs) = repl @ sub_from lit repl ?pw' ?rest"
      using True Jne by (simp add: sub_from.simps)
    have "search_from [K] pw (repl @ sub_from lit repl ?pw' ?rest)"
      using "2.prems"(5) by (simp only: out)
    then have "search_from [K] ?pw' (sub_from lit repl ?pw' ?rest)"
      using search_through_replacement [of K repl pw] cp Kne Rne Rlast pw'
      by (simp add: compatible_def)
    then have ih: "search_from [K] ?pw' ?rest \<and> K \<noteq> lit"
      using "2.IH"(1) True Jne J R K cp by blast
    have "0 < ?n" using Jne by simp
    from search_from_drop [OF conjunct1 [OF ih] this len] ih show ?thesis by blast
  next
    case False
    have out: "sub_from lit repl pw (c # cs) = c # sub_from lit repl (is_word c) cs"
      using False by (simp add: sub_from.simps)
    from "2.prems"(5) have "match_at [K] pw (sub_from lit repl pw (c # cs)) \<or>
        search_from [K] (is_word c) (sub_from lit repl (is_word c) cs)"
      by (simp add: out)
    then show ?thesis
    proof
      assume "match_at [K] pw (sub_from lit repl pw (c # cs))"
      from match_at_sub_from [OF J R K cp False this] False show ?thesis by auto
    next
      assume "search_from [K] (is_word c) (sub_from lit repl (is_word c) cs)"
      then have "search_from [K] (is_word c) cs \<and> K \<noteq> lit"
        using "2.IH"(2) False J R K cp by blast
      then show ?thesis by simp
    qed
  qed
qed

subsection \<open>The acronym map and the special case, key by key\<close>

lemma lower_chars:
  "map lower ''GONDMTSHIPAL'' = ''gondmtshipal''"
  "map lower ''abcdefghijklmnopqrstuvwxyz'' = ''abcdefghijklmnopqrstuvwxyz''"
  "map lower ''2/- '' = ''2/- ''"
  by code_simp+

lemma word_chars:
  "list_all is_word ''GONDMTSHIPAL2abcdefghijklmnopqrstuvwxyz''"
  "list_all (\<lambda>c. \<not> is_word c) ''/- ''"
  by code_simp+

lemma steps_wf: "list_all (\<lambda>(k, r). wf_lit k \<and> wf_lit r) all_steps"
  using word_chars by (simp add: all_steps_def acronym_map_def wf_lit_def)

lemma steps_compatible:
  "list_all (\<lambda>(K, R'). list_all (\<lambda>(J, R). compatible K R) all_steps) all_steps"
  using lower_chars word_chars
  by (simp add: all_steps_def acronym_map_def compatible_def)

lemma step_wf: "(J, R) \<in> set all_steps \<Longrightarrow> wf_lit J \<and> wf_lit R"
  using steps_wf by (auto simp: list_all_iff)

lemma step_compatible:
  "(K, R') \<in> set all_steps \<Longrightarrow> (J, R) \<in> set all_steps \<Longrightarrow> compatible K R"
  using steps_compatible by (auto simp: list_all_iff)

lemma re_search_step:
  assumes K: "(K, R') \<in> set all_steps" and J: "(J, R) \<in> set all_steps"
    and found: "re_search [K] (re_sub J R s)"
  shows "re_search [K] s \<and> K \<noteq> J"
  using search_from_sub_from [of J R K False s] step_wf [OF J] step_wf [OF K]
    step_compatible [OF K J] found
  by (simp add: re_search_def re_sub_def)

subsection \<open>The whole normalization\<close>

lemma no_key_left:
  assumes "set xs \<subseteq> set all_steps"
    and "D \<subseteq> fst ` set all_steps"
    and "\<forall>K \<in> D. \<not> re_search [K] s"
  shows "\<forall>K \<in> D \<union> fst ` set xs. \<not> re_search [K] (foldl step s xs)"
  using assms
proof (induction xs arbitrary: s D)
  case Nil
  then show ?case by simp
next
  case (Cons x xs)
  obtain J R where x: "x = (J, R)" by (cases x)
  have J: "(J, R) \<in> set all_steps" using Cons.prems(1) by (simp add: x)
  have quiet: "\<not> re_search [K] (re_sub J R s)" if "K \<in> insert J D" for K
  proof
    assume found: "re_search [K] (re_sub J R s)"
    from that Cons.prems(2) J obtain R' where K: "(K, R') \<in> set all_steps"
      by force
    from re_search_step [OF K J found] that Cons.prems(3) show False by auto
  qed
  have "\<forall>K \<in> insert J D \<union> fst ` set xs. \<not> re_search [K] (foldl step (re_sub J R s) xs)"
  proof (rule Cons.IH)
    show "set xs \<subseteq> set all_steps" using Cons.prems(1) by simp
    show "insert J D \<subseteq> fst ` set all_steps" using Cons.prems(2) J by force
    show "\<forall>K \<in> insert J D. \<not> re_search [K] (re_sub J R s)" using quiet by blast
  qed
  then show ?case by (simp add: x)
qed

lemma steps_leave_quiet_text:
  "\<forall>(K, R) \<in> set xs. \<not> re_search [K] s \<Longrightarrow> foldl step s xs = s"
proof (induction xs)
  case Nil
  show ?case by simp
next
  case (Cons x xs)
  obtain J R where x: "x = (J, R)" by (cases x)
  have "re_sub J R s = s"
    using Cons.prems by (simp add: x re_sub_def re_search_def sub_from_no_match)
  then show ?case using Cons by (simp add: x)
qed

lemma normalize_text_quiet: "(K, R) \<in> set all_steps \<Longrightarrow> \<not> re_search [K] (normalize_text s)"
proof -
  assume K: "(K, R) \<in> set all_steps"
  have "\<forall>K \<in> {} \<union> fst ` set all_steps. \<not> re_search [K] (foldl step s all_steps)"
    by (rule no_key_left) simp_all
  then show ?thesis using K by (force simp: normalize_text_def)
qed

lemma normalize_text_idem: "normalize_text (normalize_text s) = normalize_text s"
proof -
  have "foldl step (normalize_text s) all_steps = normalize_text s"
    by (rule steps_leave_quiet_text) (auto simp: normalize_text_quiet)
  then show ?thesis by (simp add: normalize_text_def)
qed

subsection \<open>The column\<close>

lemma foldl_str_replace:
  "foldl (\<lambda>d (abbr, full). str_replace abbr full d) col xs =
     map (map_option (\<lambda>s. foldl step s xs)) col"
proof (induction xs arbitrary: col)
  case Nil
  show ?case by (simp add: option.map_ident)
next
  case (Cons x xs)
  obtain J R where x: "x = (J, R)" by (cases x)
  show ?case
    by (simp add: Cons.IH x) (simp add: str_replace_def option.map_comp comp_def)
qed

lemma str_replace_no_count:
  assumes "str_count_sum pat d = 0" and "pat \<noteq> []"
  shows "str_replace pat repl d = d"
proof -
  have "map_option (re_sub pat repl) c = c" if "c \<in> set d" for c
  proof (cases c)
    case None
    then show ?thesis by simp
  next
    case (Some s)
    have "re_count pat s = 0"
      using assms(1) that Some by (force simp: str_count_sum_def)
    then have "\<not> search_from [pat] False s"
      using assms(2) by (simp add: re_count_def count_from_zero_iff)
    then show ?thesis by (simp add: Some re_sub_def sub_from_no_match)
  qed
  then show ?thesis by (simp add: str_replace_def map_idI)
qed

lemma normalizer_eq:
  "normalizer col =
     (if str_accessor_ok col then Inr (map (map_option normalize_text) col)
      else Inl AttributeError)"
proof -
  let ?d = "apply_acronym_map col"
  let ?oc = "str_count_sum ''ohai'' ?d"
  have d: "?d = map (map_option (\<lambda>s. foldl step s acronym_map)) col"
    by (simp add: apply_acronym_map_def foldl_str_replace)
  have "(if ?oc > 0 then str_replace ''ohai'' ''overall hop aroma intensity'' ?d else ?d)
        = str_replace ''ohai'' ''overall hop aroma intensity'' ?d"
    using str_replace_no_count [of "''ohai''" ?d] by simp
  also have "\<dots> = map (map_option normalize_text) col"
  proof -
    have "normalize_text =
        (\<lambda>s. re_sub ''ohai'' ''overall hop aroma intensity'' (foldl step s acronym_map))"
      by (rule ext) (simp add: normalize_text_def all_steps_def)
    then show ?thesis
      by (simp add: d str_replace_def option.map_comp comp_def)
  qed
  finally show ?thesis
    by (simp add: normalizer_def expand_acronyms_def Let_def)
qed

lemma str_accessor_ok_map:
  "str_accessor_ok (map (map_option f) col) = str_accessor_ok col"
  by (simp add: str_accessor_ok_def list_ex_iff)

subsection \<open>A step changes a text exactly where its key is a whole word\<close>












section \<open>Reading back what the encoder wrote\<close>

lemma code_char_of: "n < 256 \<Longrightarrow> code (char_of n) = n"
  by (simp add: code_def)

lemma hex_val_hex_digit: "n < 16 \<Longrightarrow> hex_val (hex_digit n) = Some n"
  by (auto simp: hex_val_def hex_digit_def code_char_of)

lemma hex_val_zero: "hex_val CHR ''0'' = Some 0"
  by (simp add: hex_val_def code_def)

lemma decode_escape:
  assumes "code c < 32"
  shows "decode_uXXXX CHR ''0'' CHR ''0'' (hex_digit (code c div 16)) (hex_digit (code c mod 16))
           = Some (code c)"
proof -
  have "code c div 16 < 16" using assms by simp
  then have a: "hex_val (hex_digit (code c div 16)) = Some (code c div 16)"
    by (rule hex_val_hex_digit)
  have b: "hex_val (hex_digit (code c mod 16)) = Some (code c mod 16)"
    by (rule hex_val_hex_digit) simp
  show ?thesis by (simp add: decode_uXXXX_def hex_val_zero a b)
qed

lemma char_of_code: "char_of (code c) = c"
  by (simp add: code_def)

lemma scanstring_escape_char:
  "scanstring (escape_char c @ rest) = with_char c (scanstring rest)"
proof -
  consider (named) "c \<in> {CHR 0x22, CHR 0x5C, CHR 0x08, CHR 0x0C, CHR 0x0A, CHR 0x0D, CHR 0x09}"
    | (control) "c \<notin> {CHR 0x22, CHR 0x5C, CHR 0x08, CHR 0x0C, CHR 0x0A, CHR 0x0D, CHR 0x09}"
        "code c < 32"
    | (plain) "c \<notin> {CHR 0x22, CHR 0x5C, CHR 0x08, CHR 0x0C, CHR 0x0A, CHR 0x0D, CHR 0x09}"
        "\<not> code c < 32"
    by blast
  then show ?thesis
  proof cases
    case named
    then show ?thesis by (auto simp: escape_char_def backslash_def)
  next
    case control
    then show ?thesis
      by (simp add: escape_char_def decode_escape char_of_code)
  next
    case plain
    then show ?thesis by (simp add: escape_char_def)
  qed
qed

lemma scanstring_escaped:
  "scanstring (escaped s @ CHR 0x22 # rest) = Some (s, rest)"
  unfolding escaped_def
  by (induction s) (simp_all add: scanstring_escape_char with_char_def)

lemma scan_once_string:
  "scan_once (Suc fuel) (encode_basestring s @ rest) = Some (JStr s, rest)"
  by (simp add: encode_basestring_def scanstring_escaped)

lemma scan_once_cell:
  "scan_once (Suc fuel) (iterencode level (py_cell c) @ rest) = Some (py_cell c, rest)"
  by (cases c) (simp_all add: py_cell_def scan_once_string)

lemma skip_ws_newline_indent: "skip_ws (newline_indent level @ rest) = skip_ws rest"
  by (simp add: skip_ws_def newline_indent_def is_ws_def dropWhile_append)

lemma skip_ws_stop: "\<not> is_ws c \<Longrightarrow> skip_ws (c # rest) = c # rest"
  by (simp add: skip_ws_def)

lemma skip_ws_go: "is_ws c \<Longrightarrow> skip_ws (c # rest) = skip_ws rest"
  by (simp add: skip_ws_def)

lemma skip_ws_cell:
  "skip_ws (iterencode level (py_cell c) @ rest) = iterencode level (py_cell c) @ rest"
  by (cases c) (simp_all add: py_cell_def encode_basestring_def skip_ws_def is_ws_def)

lemma ws_chars:
  "is_ws CHR '' ''" "\<not> is_ws CHR '':''" "\<not> is_ws CHR ''}''" "\<not> is_ws CHR '']''"
  "\<not> is_ws CHR '',''" "\<not> is_ws CHR ''{''" "\<not> is_ws CHR 0x22"
  by (simp_all add: is_ws_def)

declare scan_once.simps [simp del] JSONArray.simps [simp del] JSONObject.simps [simp del]

lemma JSONObject_last_pair:
  "JSONObject (Suc (Suc fuel))
     (escaped k @ CHR 0x22 # CHR '':'' # CHR '' '' # iterencode level (py_cell c)
        @ newline_indent level' @ CHR ''}'' # rest)
     = Some ([(k, py_cell c)], rest)"
  by (simp add: JSONObject.simps(2) [of "Suc fuel"] scanstring_escaped skip_ws_stop skip_ws_go
      ws_chars skip_ws_cell scan_once_cell skip_ws_newline_indent)

lemma JSONObject_next_pair:
  "JSONObject (Suc (Suc fuel))
     (escaped k @ CHR 0x22 # CHR '':'' # CHR '' '' # iterencode level (py_cell c)
        @ CHR '','' # newline_indent level' @ CHR 0x22 # tail)
     = map_option (\<lambda>(kvs, rest). ((k, py_cell c) # kvs, rest)) (JSONObject (Suc fuel) tail)"
  by (simp add: JSONObject.simps(2) [of "Suc fuel"] scanstring_escaped skip_ws_stop skip_ws_go
      ws_chars skip_ws_cell scan_once_cell skip_ws_newline_indent)

lemma iterencode_record:
  "iterencode level (py_record r) @ rest =
     CHR ''{'' # newline_indent (Suc level) @ CHR 0x22 #
       escaped ''sample'' @ CHR 0x22 # CHR '':'' # CHR '' '' #
         iterencode (Suc level) (py_cell (sample r)) @
       CHR '','' # newline_indent (Suc level) @ CHR 0x22 #
       escaped ''text'' @ CHR 0x22 # CHR '':'' # CHR '' '' #
         iterencode (Suc level) (py_cell (text' r)) @
       newline_indent level @ CHR ''}'' # rest"
  by (simp add: py_record_def encode_basestring_def)

lemma dict_record:
  "dict [(''sample'', a), (''text'', b)] = [(''sample'', a), (''text'', b)]"
  by (simp add: dict_def)

lemma scan_once_record:
  "scan_once (Suc (Suc (Suc (Suc fuel)))) (iterencode level (py_record r) @ rest)
     = Some (py_record r, rest)"
  unfolding iterencode_record
  by (simp add: scan_once.simps(3) [of "Suc (Suc (Suc fuel))"] skip_ws_newline_indent
      skip_ws_stop ws_chars JSONObject_next_pair JSONObject_last_pair dict_record py_record_def)

lemma skip_ws_record:
  "skip_ws (iterencode level (py_record r) @ rest) = iterencode level (py_record r) @ rest"
  unfolding iterencode_record by (simp add: skip_ws_stop ws_chars)

lemma join_Cons:
  "join sep (x # xs) @ z = x @ (if xs = [] then z else sep @ join sep xs @ z)"
  by (cases xs) simp_all

lemma length_join: "\<forall>x \<in> set xs. x \<noteq> [] \<Longrightarrow> length xs \<le> length (join sep xs)"
proof (induction sep xs rule: join.induct)
  case (1 sep)
  show ?case by simp
next
  case (2 sep x)
  then show ?case by (cases x) simp_all
next
  case (3 sep x y ys)
  then show ?case by (cases x) simp_all
qed

lemma iterencode_record_nonempty: "iterencode level (py_record r) \<noteq> []"
  using iterencode_record [of level r "[]"] by simp

lemma JSONArray_records:
  "rs \<noteq> [] \<Longrightarrow> length rs + 4 \<le> fuel \<Longrightarrow>
   JSONArray fuel
     (join (CHR '','' # newline_indent (Suc 0)) (map (iterencode (Suc 0)) (map py_record rs))
        @ newline_indent 0 @ CHR '']'' # rest)
     = Some (map py_record rs, rest)"
proof (induction rs arbitrary: fuel rule: list_nonempty_induct)
  case (single r)
  define F where "F = Suc (Suc (Suc (Suc (fuel - 5))))"
  have fuel: "fuel = Suc F" using single by (simp add: F_def)
  have v: "scan_once F (iterencode (Suc 0) (py_record r) @ x) = Some (py_record r, x)" for x
    unfolding F_def by (rule scan_once_record)
  show ?case
    unfolding fuel
    by (simp add: JSONArray.simps(2) [of F] v skip_ws_newline_indent skip_ws_stop ws_chars)
next
  case (cons r rs)
  define F where "F = Suc (Suc (Suc (Suc (fuel - 5))))"
  define items where
    "items = join (CHR '','' # newline_indent (Suc 0)) (map (iterencode (Suc 0)) (map py_record rs))"
  define tail where "tail = newline_indent 0 @ CHR '']'' # rest"
  have fuel: "fuel = Suc F" using cons.prems by (simp add: F_def)
  have less: "length rs + 4 \<le> F" using cons.prems by (simp add: F_def)
  have v: "scan_once F (iterencode (Suc 0) (py_record r) @ x) = Some (py_record r, x)" for x
    unfolding F_def by (rule scan_once_record)
  have ih: "JSONArray F (items @ tail) = Some (map py_record rs, rest)"
    unfolding items_def tail_def by (rule cons.IH [OF less])
  obtain r' rs' where rs: "rs = r' # rs'" using cons.hyps by (cases rs) auto
  have "skip_ws (items @ tail) = items @ tail"
    unfolding items_def rs list.map join_Cons by (rule skip_ws_record)
  then have ws: "skip_ws (newline_indent (Suc 0) @ items @ tail) = items @ tail"
    by (simp add: skip_ws_newline_indent)
  have doc: "join (CHR '','' # newline_indent (Suc 0))
               (map (iterencode (Suc 0)) (map py_record (r # rs)))
             @ newline_indent 0 @ CHR '']'' # rest
           = iterencode (Suc 0) (py_record r) @ CHR '','' # newline_indent (Suc 0) @ items @ tail"
    unfolding items_def tail_def list.map join_Cons using cons.hyps by simp
  show ?case
    unfolding fuel doc
    by (simp add: JSONArray.simps(2) [of F] v skip_ws_stop ws_chars ws ih)
qed

lemma scan_once_list:
  assumes "skip_ws cs = x" and "x \<noteq> []" and "hd x \<noteq> CHR '']''"
  shows "scan_once (Suc fuel) (CHR ''['' # cs) =
           map_option (\<lambda>(vs, rest). (JList vs, rest)) (JSONArray fuel x)"
  using assms by (cases x) (simp_all add: scan_once.simps)

lemma json_load_records: "json_load (json_dump (py_records rs)) = Inr (py_records rs)"
proof (cases "rs = []")
  case True
  have "scan_once (Suc (Suc 0)) ''[]'' = Some (JList [], [])"
    by (simp add: scan_once.simps skip_ws_def is_ws_def)
  then show ?thesis
    by (simp add: True json_load_def json_dump_def py_records_def skip_ws_def is_ws_def)
next
  case False
  define items where
    "items = join (CHR '','' # newline_indent (Suc 0)) (map (iterencode (Suc 0)) (map py_record rs))"
  define tail where "tail = newline_indent 0 @ [CHR '']'']"
  obtain r rs' where rs: "rs = r # rs'" using False by (cases rs) auto
  have doc: "json_dump (py_records rs) = CHR ''['' # newline_indent (Suc 0) @ items @ tail"
    using False by (simp add: json_dump_def py_records_def items_def tail_def)
  have start: "skip_ws (items @ tail) = items @ tail"
    unfolding items_def rs list.map join_Cons by (rule skip_ws_record)
  have first: "items @ tail \<noteq> []" "hd (items @ tail) \<noteq> CHR '']''"
    unfolding items_def rs list.map join_Cons iterencode_record by simp_all
  have "length rs \<le> length items"
    unfolding items_def
    by (rule order_trans [OF _ length_join]) (auto simp: iterencode_record_nonempty)
  then have fuel: "length rs + 4 \<le> length (newline_indent (Suc 0) @ items @ tail)"
    by (simp add: newline_indent_def)
  define F where "F = length (newline_indent (Suc 0) @ items @ tail)"
  have arr: "JSONArray F (items @ tail) = Some (map py_record rs, [])"
    unfolding items_def tail_def
    using JSONArray_records [OF False fuel [folded F_def], of "[]"] by simp
  have scan: "scan_once (Suc F) (CHR ''['' # newline_indent (Suc 0) @ items @ tail)
          = Some (JList (map py_record rs), [])"
    using scan_once_list [of "newline_indent (Suc 0) @ items @ tail" "items @ tail" F] first
    by (simp add: skip_ws_newline_indent start arr)
  have len: "length (CHR ''['' # newline_indent (Suc 0) @ items @ tail) = Suc F"
    by (simp add: F_def)
  have ws: "skip_ws (CHR ''['' # newline_indent (Suc 0) @ items @ tail)
          = CHR ''['' # newline_indent (Suc 0) @ items @ tail"
    by (simp add: skip_ws_stop is_ws_def)
  show ?thesis
    unfolding json_load_def doc len ws scan
    by (simp add: py_records_def skip_ws_def)
qed

lemma py_cell_inj: "py_cell a = py_cell b \<Longrightarrow> a = b"
  by (cases a; cases b) (simp_all add: py_cell_def)

lemma py_record_inj: "py_record r = py_record r' \<Longrightarrow> r = r'"
  by (cases r; cases r') (auto simp: py_record_def dest: py_cell_inj)

lemma inj_py_records: "inj py_records"
proof (rule injI)
  fix rs rs'
  assume "py_records rs = py_records rs'"
  then have "map py_record rs = map py_record rs'" by (simp add: py_records_def)
  moreover have "inj py_record" by (rule injI) (rule py_record_inj)
  ultimately show "rs = rs'" by (simp add: inj_map_eq_map)
qed

section \<open>The claims\<close>

text \<open>
  C1. The claim: the percentage computation copes with an empty partition, reporting 0%
  or undefined and raising nothing. In the code the division \<open>n / total\<close> has no guard:
  on the empty partition the category loop and the onion/garlic cell both raise
  \<open>ZeroDivisionError\<close>.
\<close>

theorem empty_partition_raises:
  "prevalence [] = Inl ZeroDivisionError \<and> onion_garlic_analysis [] = Inl ZeroDivisionError"
  by (simp add: prevalence_eq onion_garlic_analysis_eq)

text \<open>
  C1, amended. On every non-empty partition whose texts are all present, both
  computations return: one row per category in the order of the categories, each with the
  partition size as its total, a count of at most that size and the percentage
  count / total; and the onion/garlic report with 100 * count / total.
\<close>

theorem percentages_on_nonempty_partition:
  assumes "texts \<noteq> []" and "None \<notin> set texts"
  shows "\<exists>rows rep.
           prevalence texts = Inr rows \<and>
           map category rows = map fst descriptor_categories \<and>
           list_all (\<lambda>r. n_total r = length texts \<and> n_comments r \<le> n_total r \<and>
                          pct_comments r = of_nat (n_comments r) / of_nat (n_total r)) rows \<and>
           onion_garlic_analysis texts = Inr rep \<and>
           og_total rep = length texts \<and> og_count rep \<le> og_total rep \<and>
           og_percent rep = of_nat (og_count rep) / of_nat (og_total rep) * 100"
proof -
  let ?rows = "map (row_of texts) descriptor_categories"
  have p: "prevalence texts = Inr ?rows"
    using assms by (simp add: prevalence_eq)
  have cats: "map category ?rows = map fst descriptor_categories"
    by (simp add: row_of_def split_def comp_def)
  have each: "list_all (\<lambda>r. n_total r = length texts \<and> n_comments r \<le> n_total r \<and>
                 pct_comments r = of_nat (n_comments r) / of_nat (n_total r)) ?rows"
    by (simp add: list_all_iff row_of_def split_def n_matching_le)
  show ?thesis
    using assms p cats each
    by (simp add: onion_garlic_analysis_eq n_matching_le)
qed

theorem percentages_on_nonempty_partition_witness:
  "\<exists>rows rep.
     prevalence [Some ''Stone fruit and mango'', Some ''slight onion garlic note''] = Inr rows \<and>
     map category rows = map fst descriptor_categories \<and>
     onion_garlic_analysis [Some ''Stone fruit and mango'', Some ''slight onion garlic note'']
       = Inr rep \<and>
     og_total rep = 2"
  using percentages_on_nonempty_partition
          [of "[Some ''Stone fruit and mango'', Some ''slight onion garlic note'']"]
  by auto

text \<open>
  C2. The claim: a record without comment text counts as no tokens and no match in
  every analysis, and nothing raises. \<open>word_count\<close> of notebook 1 does return 0 for it,
  but the analyses of notebook 2 have no such test: on a partition holding a \<open>NaN\<close> the
  n-gram loop raises \<open>AttributeError\<close>, and the category loop and the onion/garlic
  cell raise \<open>TypeError\<close>.
\<close>

theorem missing_text_raises:
  "word_count nl None = 0 \<and>
   ngram_analysis nl [Some ''Muted'', None] = Inl AttributeError \<and>
   prevalence [Some ''Muted'', None] = Inl TypeError \<and>
   onion_garlic_analysis [Some ''Muted'', None] = Inl TypeError"
  by (simp add: word_count_def ngram_analysis_eq prevalence_eq onion_garlic_analysis_eq)

text \<open>
  C3. The claim: the special case for the plural rewrites an occurrence of
  \<open>india pale ales\<close>. The cell counts the occurrences (\<open>plural_count\<close>), and
  \<open>ipa_pattern\<close> is never used: the text comes out as it went in.
\<close>

theorem plural_counted_not_rewritten:
  "expand_acronyms [Some ''two India Pale Ales, one IPA''] =
     Inr \<lparr>comments = [Some ''two India Pale Ales, one india pale ale''],
          plural_count = 1, ohai_count = 0\<rparr>"
  by code_simp

text \<open>
  C4. The claim: each of \<open>not\<close>, \<open>no\<close>, \<open>very\<close>, \<open>never\<close> that is a token of the
  text survives the filter. The filter also asks for more than two characters, so
  \<open>no\<close> never survives, whatever the tokenizer and the stopword list are.
\<close>

theorem no_is_filtered_out: "''no'' \<notin> set (surviving nl t)"
  by (simp add: surviving_def keep_token_def)

lemma negation_words_example:
  "word_tokenize toy_nltk (preprocess ''No aroma, not bad'') = [''no'', ''aroma'', ''not'', ''bad''] \<and>
   cleaned_tokens toy_nltk ''No aroma, not bad'' = [''aroma'', ''not'', ''bad'']"
  by code_simp

text \<open>
  C5. The normalizer is idempotent: on every column that \<open>Series.str\<close> accepts, it
  returns a column, and run on that column again it returns the same column. No expansion
  holds a key, or forms one with the text around it.
\<close>

theorem normalizer_idempotent:
  assumes "str_accessor_ok col"
  shows "\<exists>col'. normalizer col = Inr col' \<and> normalizer col' = Inr col'"
  using assms
  by (simp add: normalizer_eq str_accessor_ok_map option.map_comp comp_def normalize_text_idem)

theorem normalizer_idempotent_witness:
  "normalizer [Some ''GO, ohai'', None] =
     Inr [Some ''onion garlic, overall hop aroma intensity'', None] \<and>
   normalizer [Some ''onion garlic, overall hop aroma intensity'', None] =
     Inr [Some ''onion garlic, overall hop aroma intensity'', None]"
proof -
  have ok: "str_accessor_ok [Some ''GO, ohai'', None]"
    by (simp add: str_accessor_ok_def)
  have h: "normalizer [Some ''GO, ohai'', None] =
     Inr [Some ''onion garlic, overall hop aroma intensity'', None]"
    by code_simp
  from normalizer_idempotent [OF ok] show ?thesis
    by (simp add: h)
qed

text \<open>
  C6. Exporting and reloading gives back the records: the projection keeps every row of
  the frame in its place, with its sample and its comment; \<open>json.load\<close> of the document
  that \<open>json.dump\<close> writes for these records returns the very list of dictionaries that
  was dumped; and two lists of records that give the same list of dictionaries are the
  same, row by row, duplicates included.
\<close>

theorem export_reload_round_trip:
  "json_load (json_dump (py_records (to_records data))) = Inr (py_records (to_records data)) \<and>
   inj py_records \<and>
   length (to_records data) = length data \<and>
   (\<forall>i < length data.
      sample (to_records data ! i) = Sample (data ! i) \<and>
      text' (to_records data ! i) = Comments (data ! i))"
  using json_load_records [of "to_records data"] inj_py_records
  by (simp add: to_records_def)

theorem export_reload_round_trip_witness:
  "json_load (json_dump (py_records (to_records
      [\<lparr>Event = Some ''Hopsource 2022'', Sample = Some ''Dried Hops'', Comments = Some ''Muted''\<rparr>,
       \<lparr>Event = Some ''Hopsource 2022'', Sample = Some ''Dried Hops'', Comments = Some ''Muted''\<rparr>,
       \<lparr>Event = Some ''CBC 2024'', Sample = Some ''Beer'', Comments = None\<rparr>]))) =
   Inr (JList
      [JDict [(''sample'', JStr ''Dried Hops''), (''text'', JStr ''Muted'')],
       JDict [(''sample'', JStr ''Dried Hops''), (''text'', JStr ''Muted'')],
       JDict [(''sample'', JStr ''Beer''), (''text'', JNaN)]])"
  using export_reload_round_trip
    [of "[\<lparr>Event = Some ''Hopsource 2022'', Sample = Some ''Dried Hops'', Comments = Some ''Muted''\<rparr>,
          \<lparr>Event = Some ''Hopsource 2022'', Sample = Some ''Dried Hops'', Comments = Some ''Muted''\<rparr>,
          \<lparr>Event = Some ''CBC 2024'', Sample = Some ''Beer'', Comments = None\<rparr>]"]
  by (simp add: to_records_def py_records_def py_record_def py_cell_def)

text \<open>
  C7. Shuffling the input rows changes no table: for each sample type, the three n-gram
  tables read as mappings from n-gram to count, the category rows and the onion/garlic
  report are those of the original order (an error included, when there is one).
\<close>

theorem counts_invariant_under_reordering:
  assumes "mset records' = mset records"
  shows "map_sum id lookup_counts (ngram_analysis nl (texts_of s records')) =
           map_sum id lookup_counts (ngram_analysis nl (texts_of s records)) \<and>
         prevalence (texts_of s records') = prevalence (texts_of s records) \<and>
         onion_garlic_analysis (texts_of s records') = onion_garlic_analysis (texts_of s records)"
proof -
  have eq: "mset (texts_of s records') = mset (texts_of s records)"
    using assms by (rule texts_of_mset)
  show ?thesis
    using ngram_analysis_mset [OF eq] prevalence_mset [OF eq] onion_garlic_analysis_mset [OF eq]
    by simp
qed

theorem counts_invariant_under_reordering_witness:
  "prevalence (texts_of ''Beer''
      [\<lparr>sample = Some ''Beer'', text' = Some ''Good''\<rparr>,
       \<lparr>sample = Some ''Dried Hops'', text' = Some ''Muted''\<rparr>,
       \<lparr>sample = Some ''Beer'', text' = Some ''green onion''\<rparr>]) =
   prevalence (texts_of ''Beer''
      [\<lparr>sample = Some ''Beer'', text' = Some ''green onion''\<rparr>,
       \<lparr>sample = Some ''Beer'', text' = Some ''Good''\<rparr>,
       \<lparr>sample = Some ''Dried Hops'', text' = Some ''Muted''\<rparr>])"
proof -
  have "mset [\<lparr>sample = Some ''Beer'', text' = Some ''Good''\<rparr>,
              \<lparr>sample = Some ''Dried Hops'', text' = Some ''Muted''\<rparr>,
              \<lparr>sample = Some ''Beer'', text' = Some ''green onion''\<rparr>] =
        mset [\<lparr>sample = Some ''Beer'', text' = Some ''green onion''\<rparr>,
              \<lparr>sample = Some ''Beer'', text' = Some ''Good''\<rparr>,
              \<lparr>sample = Some ''Dried Hops'', text' = Some ''Muted''\<rparr>]"
    by (simp add: add.commute add.left_commute)
  from counts_invariant_under_reordering [OF this, of toy_nltk "''Beer''"]
  show ?thesis by blast
qed



text \<open>
  C9. Every bigram and trigram in a partition's table is made of tokens that stand next
  to each other in the token sequence of one comment of the partition, and its count is
  the number of places, summed over the comments one by one, where it stands so: no
  window reaches from one comment into the next.
\<close>

theorem ngrams_within_one_comment:
  assumes "ngram_analysis nl texts = Inr c"
  shows "(\<forall>(g, n) \<in> set (bigram_counts c).
            (\<exists>t \<in> set texts. \<exists>i. i + 1 < length (tokens_of nl t) \<and>
                g = tokens_of nl t ! i @ '' '' @ tokens_of nl t ! (i + 1)) \<and>
            n = (\<Sum>t\<leftarrow>texts. length (filter (\<lambda>i. bigram_at (tokens_of nl t) i = g)
                                        [0..<length (tokens_of nl t) - 1]))) \<and>
         (\<forall>(g, n) \<in> set (trigram_counts c).
            (\<exists>t \<in> set texts. \<exists>i. i + 2 < length (tokens_of nl t) \<and>
                g = tokens_of nl t ! i @ '' '' @ tokens_of nl t ! (i + 1) @ '' '' @
                    tokens_of nl t ! (i + 2)) \<and>
            n = (\<Sum>t\<leftarrow>texts. length (filter (\<lambda>i. trigram_at (tokens_of nl t) i = g)
                                        [0..<length (tokens_of nl t) - 2])))"
proof -
  let ?bs = "concat (map (\<lambda>t. bigrams_of (tokens_of nl t)) texts)"
  let ?gs = "concat (map (\<lambda>t. trigrams_of (tokens_of nl t)) texts)"
  have c: "bigram_counts c = Counter ?bs" "trigram_counts c = Counter ?gs"
    using assms by (auto simp: ngram_analysis_eq split: if_splits)
  have bi: "\<exists>t \<in> set texts. \<exists>i. i + 1 < length (tokens_of nl t) \<and>
              g = tokens_of nl t ! i @ '' '' @ tokens_of nl t ! (i + 1)"
    if "g \<in> set ?bs" for g
  proof -
    from that obtain t where t: "t \<in> set texts" "g \<in> set (bigrams_of (tokens_of nl t))"
      by auto
    then obtain i where "i < length (tokens_of nl t) - 1" "g = bigram_at (tokens_of nl t) i"
      by (auto simp: bigrams_of_def)
    then show ?thesis using t(1) by (auto simp: bigram_at_def intro!: bexI [of _ t] exI [of _ i])
  qed
  have tri: "\<exists>t \<in> set texts. \<exists>i. i + 2 < length (tokens_of nl t) \<and>
              g = tokens_of nl t ! i @ '' '' @ tokens_of nl t ! (i + 1) @ '' '' @
                  tokens_of nl t ! (i + 2)"
    if "g \<in> set ?gs" for g
  proof -
    from that obtain t where t: "t \<in> set texts" "g \<in> set (trigrams_of (tokens_of nl t))"
      by auto
    then obtain i where "i < length (tokens_of nl t) - 2" "g = trigram_at (tokens_of nl t) i"
      by (auto simp: trigrams_of_def)
    then show ?thesis using t(1) by (auto simp: trigram_at_def intro!: bexI [of _ t] exI [of _ i])
  qed
  have nb: "count_list ?bs g =
      (\<Sum>t\<leftarrow>texts. length (filter (\<lambda>i. bigram_at (tokens_of nl t) i = g)
                             [0..<length (tokens_of nl t) - 1]))" for g
    by (simp add: count_list_concat_map bigrams_of_def count_list_map_upt)
  have nt: "count_list ?gs g =
      (\<Sum>t\<leftarrow>texts. length (filter (\<lambda>i. trigram_at (tokens_of nl t) i = g)
                             [0..<length (tokens_of nl t) - 2]))" for g
    by (simp add: count_list_concat_map trigrams_of_def count_list_map_upt)
  show ?thesis
    unfolding c
    using bi tri by (auto simp: in_Counter_iff nb nt simp del: set_concat)
qed

theorem ngrams_within_one_comment_witness:
  "ngram_analysis toy_nltk [Some ''slight onion garlic'', Some ''mango peach''] =
     Inr \<lparr>unigram_counts = [(''slight'', 1), (''onion'', 1), (''garlic'', 1), (''mango'', 1),
                              (''peach'', 1)],
          bigram_counts = [(''slight onion'', 1), (''onion garlic'', 1), (''mango peach'', 1)],
          trigram_counts = [(''slight onion garlic'', 1)]\<rparr> \<and>
   (\<exists>t \<in> set [Some ''slight onion garlic'', Some ''mango peach'']. \<exists>i.
       i + 1 < length (tokens_of toy_nltk t) \<and>
       ''mango peach'' = tokens_of toy_nltk t ! i @ '' '' @ tokens_of toy_nltk t ! (i + 1))"
proof -
  have h: "ngram_analysis toy_nltk [Some ''slight onion garlic'', Some ''mango peach''] =
     Inr \<lparr>unigram_counts = [(''slight'', 1), (''onion'', 1), (''garlic'', 1), (''mango'', 1),
                              (''peach'', 1)],
          bigram_counts = [(''slight onion'', 1), (''onion garlic'', 1), (''mango peach'', 1)],
          trigram_counts = [(''slight onion garlic'', 1)]\<rparr>"
    by code_simp
  let ?c = "\<lparr>unigram_counts = [(''slight'', 1), (''onion'', 1), (''garlic'', 1), (''mango'', 1),
                              (''peach'', 1)],
          bigram_counts = [(''slight onion'', 1), (''onion garlic'', 1), (''mango peach'', 1::nat)],
          trigram_counts = [(''slight onion garlic'', 1)]\<rparr>"
  have m: "(''mango peach'', 1) \<in> set (bigram_counts ?c)"
    by simp
  have "case (''mango peach'', 1::nat) of (g, n) \<Rightarrow>
          (\<exists>t \<in> set [Some ''slight onion garlic'', Some ''mango peach'']. \<exists>i.
              i + 1 < length (tokens_of toy_nltk t) \<and>
              g = tokens_of toy_nltk t ! i @ '' '' @ tokens_of toy_nltk t ! (i + 1)) \<and>
          n = (\<Sum>t\<leftarrow>[Some ''slight onion garlic'', Some ''mango peach''].
                 length (filter (\<lambda>i. bigram_at (tokens_of toy_nltk t) i = g)
                           [0..<length (tokens_of toy_nltk t) - 1]))"
    by (rule ngrams_within_one_comment [OF h, THEN conjunct1, THEN bspec, OF m])
  then have "\<exists>t \<in> set [Some ''slight onion garlic'', Some ''mango peach'']. \<exists>i.
       i + 1 < length (tokens_of toy_nltk t) \<and>
       ''mango peach'' = tokens_of toy_nltk t ! i @ '' '' @ tokens_of toy_nltk t ! (i + 1)"
    unfolding prod.case by (rule conjunct1)
  with h show ?thesis by (rule conjI)
qed

text \<open>
  C10. The onion/garlic cell and the \<open>onion garlic\<close> row of the category table agree on
  every partition: where one raises, the other raises the same error, and otherwise the
  row's count is the cell's count, both the number of comments in which
  \<open>\b(onion|garlic)\b\<close> is found, with the same total and the same percentage.
\<close>

theorem onion_garlic_row_agrees:
  "(case onion_garlic_analysis texts of
      Inl e \<Rightarrow> prevalence texts = Inl e
    | Inr rep \<Rightarrow>
        (\<exists>rows r. prevalence texts = Inr rows \<and>
           find (\<lambda>r. category r = ''onion garlic'') rows = Some r \<and>
           n_comments r = og_count rep \<and>
           og_count rep = n_matching [''onion'', ''garlic''] texts \<and>
           n_total r = og_total rep \<and>
           pct_comments r * 100 = og_percent rep))"
proof -
  have f: "find (\<lambda>r. category r = ''onion garlic'') (map (row_of texts) descriptor_categories)
        = Some (row_of texts (''onion garlic'', [''onion'', ''garlic'']))"
    by (simp add: descriptor_categories_def row_of_def)
  show ?thesis
    by (simp add: onion_garlic_analysis_eq prevalence_eq f)
       (simp add: row_of_def onion_garlic_pattern_def)
qed

theorem onion_garlic_row_agrees_witness:
  "onion_garlic_analysis [Some ''Onion, garlic and more onion'', Some ''Muted''] =
     Inr \<lparr>og_count = 1, og_total = 2, og_percent = 50\<rparr> \<and>
   (\<exists>rows r. prevalence [Some ''Onion, garlic and more onion'', Some ''Muted''] = Inr rows \<and>
      find (\<lambda>r. category r = ''onion garlic'') rows = Some r \<and> n_comments r = 1)"
proof -
  have h: "onion_garlic_analysis [Some ''Onion, garlic and more onion'', Some ''Muted''] =
     Inr \<lparr>og_count = 1, og_total = 2, og_percent = 50\<rparr>"
    by code_simp
  from onion_garlic_row_agrees [of "[Some ''Onion, garlic and more onion'', Some ''Muted'']"]
  show ?thesis
    by (auto simp: h)
qed

end
